theory Spec2Isabelle
  imports Complex_Main "HOL-Library.Multiset" "HOL-Library.Sublist"
begin

section \<open>Python primitives\<close>

text \<open>
  Exceptions are values: every function that can raise returns \<open>error + 'a\<close>, with
  \<open>Inl\<close> for the exception. The first three are Python's own, the next three are the
  exception classes of the \<open>openai\<close> client that the retry loop tells apart
  (\<open>APIError\<close> carries its \<open>status_code\<close>), and \<open>Exception\<close> stands for any
  other exception, with its message.
\<close>

datatype error =
    ValueError
  | IndexError
  | TypeError
  | RateLimitError
  | APIConnectionError
  | APIError "int option"
  | Exception string

text \<open>
  Python strings are modelled as \<^typ>\<open>string\<close>, one \<^typ>\<open>char\<close> per code point
  (code points below 256). \<open>is_space\<close> is \<open>str.isspace\<close> on these code points, and
  \<open>strip\<close> is \<open>str.strip()\<close> with no argument.
\<close>

definition is_space :: "char \<Rightarrow> bool" where
  "is_space c = (c \<in> set [CHR 0x09, CHR 0x0A, CHR 0x0B, CHR 0x0C, CHR 0x0D, CHR 0x1C,
                            CHR 0x1D, CHR 0x1E, CHR 0x1F, CHR 0x20, CHR 0x85, CHR 0xA0])"

definition strip :: "string \<Rightarrow> string" where
  "strip s = rev (dropWhile is_space (rev (dropWhile is_space s)))"

text \<open>
  \<open>contains sep s\<close> is \<open>sep in s\<close>. \<open>py_split sep s\<close> is \<open>s.split(sep)\<close> for a
  non-empty separator: the text is scanned from the left, and every occurrence of the
  separator that does not overlap the one before it ends a piece.
\<close>

fun contains :: "string \<Rightarrow> string \<Rightarrow> bool" where
  "contains sep [] = (sep = [])"
| "contains sep (c # cs) = (prefix sep (c # cs) \<or> contains sep cs)"

function py_split_from :: "string \<Rightarrow> string \<Rightarrow> string \<Rightarrow> string list" where
  "py_split_from sep piece [] = [piece]"
| "py_split_from sep piece (c # cs) =
     (if sep \<noteq> [] \<and> prefix sep (c # cs)
      then piece # py_split_from sep [] (drop (length sep) (c # cs))
      else py_split_from sep (piece @ [c]) cs)"
  by pat_completeness auto
termination
  by (relation "measure (\<lambda>(sep, piece, rest). length rest)") auto

definition py_split :: "string \<Rightarrow> string \<Rightarrow> string list" where
  "py_split sep text = py_split_from sep [] text"

text \<open>
  \<open>range_step n step\<close> lists \<open>range(0, n, step)\<close>: a zero step raises
  \<open>ValueError\<close>, a negative step gives the empty range. \<open>slice xs i j\<close> is the slice
  \<open>xs[i:j]\<close> for \<open>0 \<le> i \<le> j\<close>.
\<close>

definition range_step :: "nat \<Rightarrow> int \<Rightarrow> error + nat list" where
  "range_step n step =
     (if step = 0 then Inl ValueError
      else if step < 0 then Inr []
      else Inr (map (\<lambda>k. k * nat step) [0..<(n + nat step - 1) div nat step]))"

definition slice :: "'a list \<Rightarrow> nat \<Rightarrow> nat \<Rightarrow> 'a list" where
  "slice xs i j = take (j - i) (drop i xs)"

text \<open>
  A loop that extends a result list with the lists its body computes raises at the first
  body that raises.
\<close>

fun concat_results :: "(error + 'a list) list \<Rightarrow> error + 'a list" where
  "concat_results [] = Inr []"
| "concat_results (Inl e # rs) = Inl e"
| "concat_results (Inr xs # rs) =
     (case concat_results rs of Inl e \<Rightarrow> Inl e | Inr ys \<Rightarrow> Inr (xs @ ys))"

text \<open>\<open>a or b\<close> on integers: \<open>None\<close> and \<open>0\<close> are falsy.\<close>

definition int_or :: "int option \<Rightarrow> int \<Rightarrow> int" where
  "int_or v d = (case v of None \<Rightarrow> d | Some x \<Rightarrow> if x = 0 then d else x)"

text \<open>
  \<open>str(n)\<close> of an integer is its decimal rendering, with a leading minus sign for a
  negative number.
\<close>

definition digit :: "nat \<Rightarrow> char" where
  "digit d = ''0123456789'' ! d"

fun str_nat :: "nat \<Rightarrow> string" where
  "str_nat n = (if n < 10 then [digit n] else str_nat (n div 10) @ [digit (n mod 10)])"

declare str_nat.simps [simp del]

definition str_int :: "int \<Rightarrow> string" where
  "str_int i = (if i < 0 then CHR ''-'' # str_nat (nat (- i)) else str_nat (nat i))"

text \<open>\<open>s.replace(old, new)\<close> for one-character \<open>old\<close> and \<open>new\<close>.\<close>

definition replace_char :: "char \<Rightarrow> char \<Rightarrow> string \<Rightarrow> string" where
  "replace_char old new s = map (\<lambda>c. if c = old then new else c) s"

section \<open>models.py\<close>

text \<open>
  The dataclass \<open>Chunk\<close>. The embedding is a list of floats in the source; nothing in the
  pipeline computes with it, so its type is a parameter \<open>'v\<close>.
\<close>

record 'v Chunk =
  chunk_id :: int
  content :: string
  source_path :: string
  file_name :: string
  page_number :: "int option"
  total_chunks :: "int option"
  embedding :: "'v option"

text \<open>
  The property \<open>Chunk.document_id\<close>:
  \<^verbatim>\<open>safe_path = self.source_path.replace("/", "_").replace("\\", "_")\<close>,
  \<^verbatim>\<open>return f"{safe_path}#chunk_{self.chunk_id}"\<close>.
\<close>

definition document_id :: "('v, 'more) Chunk_scheme \<Rightarrow> string" where
  "document_id c =
     (let safe_path = replace_char (CHR 0x5C) (CHR ''_'')
                        (replace_char (CHR ''/'') (CHR ''_'') (source_path c))
      in safe_path @ ''#chunk_'' @ str_int (chunk_id c))"

text \<open>
  \<open>Chunk.to_search_document\<close>, called with the timestamp's ISO rendering. The optional
  fields of the dictionary are \<open>None\<close> when the source leaves the key out.
\<close>

record 'v SearchDocument =
  doc_id :: string
  doc_content :: string
  doc_sourcePath :: string
  doc_fileName :: string
  doc_chunkId :: int
  doc_processedAt :: string
  doc_contentVector :: "'v option"
  doc_pageNumber :: "int option"
  doc_totalChunks :: "int option"

definition to_search_document :: "'v Chunk \<Rightarrow> string \<Rightarrow> 'v SearchDocument" where
  "to_search_document c processed_at =
     \<lparr>doc_id = document_id c, doc_content = content c, doc_sourcePath = source_path c,
      doc_fileName = file_name c, doc_chunkId = chunk_id c,
      doc_processedAt = processed_at @ ''Z'',
      doc_contentVector = embedding c, doc_pageNumber = page_number c,
      doc_totalChunks = total_chunks c\<rparr>"

section \<open>config.py\<close>

text \<open>The settings the pipeline reads, with their default values.\<close>

record Settings =
  settings_chunk_size :: int
  settings_chunk_overlap :: int
  settings_embedding_batch_size :: int

definition default_settings :: Settings where
  "default_settings =
     \<lparr>settings_chunk_size = 1000, settings_chunk_overlap = 200,
      settings_embedding_batch_size = 16\<rparr>"

section \<open>splitters/text_splitter.py\<close>

text \<open>
  A \<open>TextSplitter\<close> holds the chunk size, the overlap and the separator list. Sizes are
  Python integers. The constructor takes each optional argument or, when it is \<open>None\<close>
  or falsy, the value of the settings, and raises \<open>ValueError\<close> when the overlap is not
  below the chunk size.
\<close>

record TextSplitter =
  chunk_size :: int
  chunk_overlap :: int
  separators :: "string list"

definition DEFAULT_SEPARATORS :: "string list" where
  "DEFAULT_SEPARATORS =
     [[CHR 0x0A, CHR 0x0A], [CHR 0x0A], ''. '', ''! '', ''? '', ''; '', '', '', '' '', '''']"

definition TextSplitter_init ::
  "Settings \<Rightarrow> int option \<Rightarrow> int option \<Rightarrow> string list option \<Rightarrow> error + TextSplitter" where
  "TextSplitter_init settings sz overlap seps =
     (let sp = \<lparr>chunk_size = int_or sz (settings_chunk_size settings),
                chunk_overlap = int_or overlap (settings_chunk_overlap settings),
                separators = (case seps of None \<Rightarrow> DEFAULT_SEPARATORS
                              | Some ss \<Rightarrow> if ss = [] then DEFAULT_SEPARATORS else ss)\<rparr>
      in if chunk_overlap sp \<ge> chunk_size sp then Inl ValueError else Inr sp)"

text \<open>
  \<open>_split_by_size\<close> cuts the text at the positions \<open>range(0, len(text), chunk_size)\<close>.
  \<open>_split_text\<close> tries the separators in order: an empty separator, or none left, cuts
  by size; a separator that does not occur is skipped; otherwise the text is split on it,
  a part within the chunk size is kept and a longer part is split with the remaining
  separators.
\<close>

definition split_by_size :: "TextSplitter \<Rightarrow> string \<Rightarrow> error + string list" where
  "split_by_size sp text =
     (case range_step (length text) (chunk_size sp) of
        Inl e \<Rightarrow> Inl e
      | Inr starts \<Rightarrow> Inr (map (\<lambda>i. slice text i (i + nat (chunk_size sp))) starts))"

fun split_text :: "TextSplitter \<Rightarrow> string \<Rightarrow> string list \<Rightarrow> error + string list" where
  "split_text sp text [] = split_by_size sp text"
| "split_text sp text (separator # remaining_separators) =
     (if separator = [] then split_by_size sp text
      else if \<not> contains separator text then split_text sp text remaining_separators
      else concat_results
             (map (\<lambda>part. if int (length part) \<le> chunk_size sp then Inr [part]
                          else split_text sp part remaining_separators)
                  (py_split separator text)))"

text \<open>
  \<open>_merge_chunks\<close>: the loop over the segments carries the list \<open>merged\<close> and the
  buffer \<open>current_chunk\<close>. A segment that would take a non-empty buffer over the chunk
  size flushes the buffer and starts the next one with the last \<open>chunk_overlap\<close>
  characters of the flushed buffer, a space and the segment.
\<close>

fun merge_loop :: "TextSplitter \<Rightarrow> string list \<Rightarrow> string list \<Rightarrow> string \<Rightarrow> string list \<times> string" where
  "merge_loop sp [] merged current_chunk = (merged, current_chunk)"
| "merge_loop sp (chunk # chunks) merged current_chunk =
     (if current_chunk \<noteq> [] \<and> int (length current_chunk) + int (length chunk) + 1 > chunk_size sp
      then let overlap_start = max 0 (int (length current_chunk) - chunk_overlap sp)
           in merge_loop sp chunks (merged @ [current_chunk])
                (drop (nat overlap_start) current_chunk @ '' '' @ chunk)
      else if current_chunk \<noteq> [] then merge_loop sp chunks merged (current_chunk @ '' '' @ chunk)
      else merge_loop sp chunks merged chunk)"

definition merge_chunks :: "TextSplitter \<Rightarrow> string list \<Rightarrow> string list" where
  "merge_chunks sp chunks =
     (if chunks = [] then []
      else case merge_loop sp chunks [] [] of
             (merged, current_chunk) \<Rightarrow>
               if current_chunk \<noteq> [] then merged @ [current_chunk] else merged)"

text \<open>
  \<open>split\<close>: the count \<open>total_chunks\<close> is the length of the merged list, every merged
  chunk is paired with its position in that list, the chunks that strip to the empty
  string are skipped, and each remaining one becomes a \<open>Chunk\<close> with its position as
  \<open>chunk_id\<close>.
\<close>

definition make_chunk :: "string \<Rightarrow> string \<Rightarrow> nat \<Rightarrow> nat \<times> string \<Rightarrow> 'v Chunk" where
  "make_chunk src fname n_total p =
     \<lparr>chunk_id = int (fst p), content = strip (snd p), source_path = src, file_name = fname,
      page_number = None, total_chunks = Some (int n_total), embedding = None\<rparr>"

definition split :: "TextSplitter \<Rightarrow> string \<Rightarrow> string \<Rightarrow> string \<Rightarrow> error + 'v Chunk list" where
  "split sp text src fname =
     (if text = [] \<or> strip text = [] then Inr []
      else case split_text sp (strip text) (separators sp) of
             Inl e \<Rightarrow> Inl e
           | Inr raw_chunks \<Rightarrow>
               let merged_chunks = merge_chunks sp raw_chunks;
                   n_total = length merged_chunks
               in Inr (map (make_chunk src fname n_total)
                         (filter (\<lambda>p. strip (snd p) \<noteq> []) (enumerate 0 merged_chunks))))"

section \<open>embeddings/azure_openai.py\<close>

definition EMBEDDING_DIMENSIONS :: nat where "EMBEDDING_DIMENSIONS = 1536"
definition MAX_RETRIES :: nat where "MAX_RETRIES = 3"
definition INITIAL_RETRY_DELAY :: real where "INITIAL_RETRY_DELAY = 1.0"
definition MAX_RETRY_DELAY :: real where "MAX_RETRY_DELAY = 60.0"

record EmbeddingService =
  batch_size :: int

definition EmbeddingService_init :: "Settings \<Rightarrow> int option \<Rightarrow> EmbeddingService" where
  "EmbeddingService_init settings bsize =
     \<lparr>batch_size = int_or bsize (settings_embedding_batch_size settings)\<rparr>"

text \<open>
  The remote embedding service is a parameter: \<open>remote k texts\<close> is what the call
  \<open>client.embeddings.create\<close> does when \<open>k\<close> calls were made before it, an exception or
  the list \<open>response.data\<close> of items (\<open>index\<close>, \<open>embedding\<close>). The state the service
  acts on is the number of calls made so far and the arguments of the \<open>time.sleep\<close> calls
  so far, oldest first. The delays are the floats 1.0, 2.0, 4.0, ..., which are exact;
  they are modelled as reals.
\<close>

type_synonym 'v remote = "nat \<Rightarrow> string list \<Rightarrow> error + (int \<times> 'v) list"

record EmbedWorld =
  calls :: nat
  sleeps :: "real list"

text \<open>
  \<open>_embed_batch\<close>: every text is sanitized (\<open>clean_text\<close>), one call is made, and each
  item of the response is stored at its \<open>index\<close> in a list of \<open>None\<close>s of the batch's
  length (\<open>place\<close>; a negative index counts from the end, an index out of range raises
  \<open>IndexError\<close>).
\<close>

definition clean_text :: "string \<Rightarrow> string" where
  "clean_text t =
     (if t \<noteq> [] \<and> strip t \<noteq> []
      then (if int (length t) > 30000 then take 30000 t else t)
      else '' '')"

fun place :: "(int \<times> 'v) list \<Rightarrow> 'v option list \<Rightarrow> error + 'v option list" where
  "place [] embeddings = Inr embeddings"
| "place ((i, v) # items) embeddings =
     (let n = int (length embeddings) in
      if 0 \<le> i \<and> i < n then place items (embeddings[nat i := Some v])
      else if - n \<le> i \<and> i < 0 then place items (embeddings[nat (i + n) := Some v])
      else Inl IndexError)"

definition embed_batch ::
  "'v remote \<Rightarrow> string list \<Rightarrow> EmbedWorld \<Rightarrow> (error + 'v option list) \<times> EmbedWorld" where
  "embed_batch remote texts w =
     (let clean_texts = map clean_text texts;
          w' = w\<lparr>calls := calls w + 1\<rparr>
      in case remote (calls w) clean_texts of
           Inl e \<Rightarrow> (Inl e, w')
         | Inr data \<Rightarrow> (place data (replicate (length clean_texts) None), w'))"

text \<open>
  \<open>_embed_batch_with_retry\<close>: the \<open>for\<close> loop over \<open>range(MAX_RETRIES)\<close>, with the
  attempts left, the current delay and \<open>last_error\<close> as its state. The three \<open>except\<close>
  clauses are the three cases; any other exception propagates. After the loop
  \<open>raise last_error\<close> raises \<open>TypeError\<close> when \<open>last_error\<close> is still \<open>None\<close>.
\<close>

fun retry_loop ::
  "'v remote \<Rightarrow> string list \<Rightarrow> nat \<Rightarrow> real \<Rightarrow> error option \<Rightarrow> EmbedWorld
     \<Rightarrow> (error + 'v option list) \<times> EmbedWorld" where
  "retry_loop remote texts 0 delay last_error w =
     (case last_error of None \<Rightarrow> (Inl TypeError, w) | Some e \<Rightarrow> (Inl e, w))"
| "retry_loop remote texts (Suc attempts_left) delay last_error w =
     (case embed_batch remote texts w of
        (Inr embeddings, w') \<Rightarrow> (Inr embeddings, w')
      | (Inl e, w') \<Rightarrow>
          (case e of
             RateLimitError \<Rightarrow>
               retry_loop remote texts attempts_left (min (delay * 2) MAX_RETRY_DELAY) (Some e)
                 (w'\<lparr>sleeps := sleeps w' @ [delay]\<rparr>)
           | APIConnectionError \<Rightarrow>
               retry_loop remote texts attempts_left (min (delay * 2) MAX_RETRY_DELAY) (Some e)
                 (w'\<lparr>sleeps := sleeps w' @ [delay]\<rparr>)
           | APIError status_code \<Rightarrow>
               (case status_code of
                  None \<Rightarrow> (Inl e, w')
                | Some s \<Rightarrow>
                    if s \<noteq> 0 \<and> 500 \<le> s \<and> s < 600
                    then retry_loop remote texts attempts_left (min (delay * 2) MAX_RETRY_DELAY)
                           (Some e) (w'\<lparr>sleeps := sleeps w' @ [delay]\<rparr>)
                    else (Inl e, w'))
           | _ \<Rightarrow> (Inl e, w')))"

definition embed_batch_with_retry ::
  "'v remote \<Rightarrow> string list \<Rightarrow> EmbedWorld \<Rightarrow> (error + 'v option list) \<times> EmbedWorld" where
  "embed_batch_with_retry remote texts w =
     retry_loop remote texts MAX_RETRIES INITIAL_RETRY_DELAY None w"

text \<open>
  \<open>embed_texts\<close>: the loop over \<open>range(0, len(texts), batch_size)\<close> extends
  \<open>all_embeddings\<close> with the result of each batch, and stops at the first batch that
  raises.
\<close>

fun embed_batches ::
  "EmbeddingService \<Rightarrow> 'v remote \<Rightarrow> string list \<Rightarrow> nat list \<Rightarrow> 'v option list \<Rightarrow> EmbedWorld
     \<Rightarrow> (error + 'v option list) \<times> EmbedWorld" where
  "embed_batches svc remote texts [] all_embeddings w = (Inr all_embeddings, w)"
| "embed_batches svc remote texts (i # starts) all_embeddings w =
     (case embed_batch_with_retry remote (slice texts i (i + nat (batch_size svc))) w of
        (Inl e, w') \<Rightarrow> (Inl e, w')
      | (Inr batch_embeddings, w') \<Rightarrow>
          embed_batches svc remote texts starts (all_embeddings @ batch_embeddings) w')"

definition embed_texts ::
  "EmbeddingService \<Rightarrow> 'v remote \<Rightarrow> string list \<Rightarrow> EmbedWorld
     \<Rightarrow> (error + 'v option list) \<times> EmbedWorld" where
  "embed_texts svc remote texts w =
     (if texts = [] then (Inr [], w)
      else case range_step (length texts) (batch_size svc) of
             Inl e \<Rightarrow> (Inl e, w)
           | Inr starts \<Rightarrow> embed_batches svc remote texts starts [] w)"

text \<open>
  The retry policy in the words of the specification: the retryable failures are the
  rate-limit signal, the connection failure and the server errors of the 5xx class; the
  delay of retry \<open>j\<close> is the base delay doubled \<open>j\<close> times, capped at the ceiling.
  \<open>attempt remote texts c\<close> is the outcome of \<open>_embed_batch\<close> when \<open>c\<close> calls were made
  before it.
\<close>

definition retryable :: "error \<Rightarrow> bool" where
  "retryable e =
     (case e of
        RateLimitError \<Rightarrow> True
      | APIConnectionError \<Rightarrow> True
      | APIError status_code \<Rightarrow> (case status_code of None \<Rightarrow> False | Some s \<Rightarrow> 500 \<le> s \<and> s < 600)
      | _ \<Rightarrow> False)"

definition backoff_delay :: "nat \<Rightarrow> real" where
  "backoff_delay j = min (INITIAL_RETRY_DELAY * 2 ^ j) MAX_RETRY_DELAY"

definition attempt :: "'v remote \<Rightarrow> string list \<Rightarrow> nat \<Rightarrow> error + 'v option list" where
  "attempt remote texts c = fst (embed_batch remote texts \<lparr>calls = c, sleeps = []\<rparr>)"

section \<open>indexers/cognitive_search.py\<close>

definition BATCH_SIZE :: nat where "BATCH_SIZE = 1000"

text \<open>
  The index store is a parameter as well. Every call made to it is logged: the filter
  value of a \<open>search\<close>, the keys of a \<open>delete_documents\<close>, the documents of an
  \<open>upload_documents\<close>. Each operation of the client is a function of the log of the
  calls made before it and of its argument, and gives an exception or its results: the
  keys found (the query asks for at most 10000), or one \<open>succeeded\<close> flag per result.
\<close>

datatype 'v store_event =
    Search string
  | DeleteDocuments "string list"
  | UploadDocuments "'v SearchDocument list"

record 'v SearchClient =
  search :: "'v store_event list \<Rightarrow> string \<Rightarrow> error + string list"
  delete_documents :: "'v store_event list \<Rightarrow> string list \<Rightarrow> error + bool list"
  upload_documents :: "'v store_event list \<Rightarrow> 'v SearchDocument list \<Rightarrow> error + bool list"

text \<open>
  \<open>_upsert_batch\<close> catches every exception of the upload and counts the whole batch as
  failed; \<open>upsert_batches\<close> is the loop of \<open>upsert_chunks\<close> over
  \<open>range(0, len(documents), BATCH_SIZE)\<close>.
\<close>

definition count_succeeded :: "bool list \<Rightarrow> nat" where
  "count_succeeded results = length (filter (\<lambda>r. r) results)"

definition upsert_batch ::
  "'v SearchClient \<Rightarrow> 'v SearchDocument list \<Rightarrow> 'v store_event list
     \<Rightarrow> (nat \<times> nat) \<times> 'v store_event list" where
  "upsert_batch client documents hist =
     (case upload_documents client hist documents of
        Inr results \<Rightarrow>
          (let success = count_succeeded results;
               failed = length results - success
           in ((success, failed), hist @ [UploadDocuments documents]))
      | Inl e \<Rightarrow> ((0, length documents), hist @ [UploadDocuments documents]))"

fun upsert_batches ::
  "'v SearchClient \<Rightarrow> 'v SearchDocument list \<Rightarrow> nat list \<Rightarrow> nat \<Rightarrow> nat \<Rightarrow> 'v store_event list
     \<Rightarrow> (nat \<times> nat) \<times> 'v store_event list" where
  "upsert_batches client documents [] total_success total_failed hist =
     ((total_success, total_failed), hist)"
| "upsert_batches client documents (i # starts) total_success total_failed hist =
     (case upsert_batch client (slice documents i (i + BATCH_SIZE)) hist of
        ((success, failed), hist') \<Rightarrow>
          upsert_batches client documents starts (total_success + success) (total_failed + failed) hist')"

definition attach_embeddings :: "'v Chunk list \<Rightarrow> 'v option list \<Rightarrow> 'v Chunk list" where
  "attach_embeddings chunks embeddings =
     map (\<lambda>(chunk, e). chunk\<lparr>embedding := e\<rparr>) (zip chunks embeddings)
       @ drop (length embeddings) chunks"

text \<open>
  \<open>upsert_chunks\<close>. The optional argument \<open>embeddings\<close> is \<open>None\<close> or a list; the
  test \<open>if embeddings\<close> is false for \<open>None\<close> and for the empty list. \<open>now\<close> is the
  ISO rendering of \<open>datetime.utcnow()\<close>.
\<close>

definition truthy :: "'a list option \<Rightarrow> bool" where
  "truthy xs = (case xs of None \<Rightarrow> False | Some ys \<Rightarrow> ys \<noteq> [])"

definition upsert_chunks ::
  "'v SearchClient \<Rightarrow> 'v Chunk list \<Rightarrow> 'v option list option \<Rightarrow> string \<Rightarrow> 'v store_event list
     \<Rightarrow> (error + nat \<times> nat) \<times> 'v store_event list" where
  "upsert_chunks client chunks embeddings now hist =
     (if chunks = [] then (Inr (0, 0), hist)
      else if truthy embeddings \<and> length (the embeddings) \<noteq> length chunks
      then (Inl ValueError, hist)
      else let chunks' = (if truthy embeddings then attach_embeddings chunks (the embeddings)
                          else chunks);
               documents = map (\<lambda>c. to_search_document c now) chunks'
           in case range_step (length documents) (int BATCH_SIZE) of
                Inl e \<Rightarrow> (Inl e, hist)
              | Inr starts \<Rightarrow>
                  (case upsert_batches client documents starts 0 0 hist of
                     (counts, hist') \<Rightarrow> (Inr counts, hist')))"



text \<open>
  Four stand-ins for the index store, in the way the repository's tests mock the client:
  one that holds no entry and accepts every document, one that holds one stale entry and
  whose delete call raises, one whose every upload call raises, and one that holds no
  entry and accepts only the document of chunk 0.
\<close>

definition accepting_client :: "'v SearchClient" where
  "accepting_client =
     \<lparr>search = (\<lambda>hist src. Inr []),
      delete_documents = (\<lambda>hist ids. Inr (map (\<lambda>k. True) ids)),
      upload_documents = (\<lambda>hist docs. Inr (map (\<lambda>d. True) docs))\<rparr>"


definition failing_upload_client :: "'v SearchClient" where
  "failing_upload_client =
     \<lparr>search = (\<lambda>hist src. Inr []),
      delete_documents = (\<lambda>hist ids. Inr (map (\<lambda>k. True) ids)),
      upload_documents = (\<lambda>hist docs. Inl (Exception ''upload failed''))\<rparr>"

definition partial_failure_client :: "'v SearchClient" where
  "partial_failure_client =
     \<lparr>search = (\<lambda>hist src. Inr []),
      delete_documents = (\<lambda>hist ids. Inr (map (\<lambda>k. True) ids)),
      upload_documents = (\<lambda>hist docs. Inr (map (\<lambda>d. doc_chunkId d = 0) docs))\<rparr>"


section \<open>function_app.py\<close>

text \<open>
  \<open>DocumentProcessor.process\<close>. The collaborators outside the core are parameters of
  the processor: the file type test, the blob download, the text extraction, the remote
  embedding service and the index store client; \<open>utcnow\<close> is the timestamp the upsert
  reads. The result's \<open>error_message\<close> is kept as a value: one of the fixed messages, or
  the text of the exception caught. \<open>processing_time_ms\<close> is wall-clock time and is left
  out.
\<close>

datatype message =
    UnsupportedFileType string
  | NoTextContent
  | NoChunksCreated
  | ChunksFailedToIndex nat
  | ExceptionText error

record ProcessingResult =
  result_source_path :: string
  result_file_name :: string
  success :: bool
  chunks_created :: nat
  chunks_indexed :: nat
  error_message :: "message option"


definition failed :: "string \<Rightarrow> string \<Rightarrow> message \<Rightarrow> ProcessingResult" where
  "failed blob_url fname msg =
     \<lparr>result_source_path = blob_url, result_file_name = fname, success = False,
      chunks_created = 0, chunks_indexed = 0, error_message = Some msg\<rparr>"



section \<open>Chunk identity\<close>

lemma digit_inj: "a < 10 \<Longrightarrow> b < 10 \<Longrightarrow> digit a = digit b \<Longrightarrow> a = b"
proof -
  assume a: "a < 10" and b: "b < 10" and e: "digit a = digit b"
  have d: "distinct ''0123456789''" by simp
  have "a < length ''0123456789''" "b < length ''0123456789''" using a b by simp_all
  with d e show "a = b" unfolding digit_def by (simp only: nth_eq_iff_index_eq)
qed

lemma digit_not_minus: "d < 10 \<Longrightarrow> digit d \<noteq> CHR ''-''"
proof -
  assume "d < 10"
  then have "d \<in> {0,1,2,3,4,5,6,7,8,9}" by auto
  then show ?thesis unfolding digit_def by auto
qed

lemma str_nat_nonempty: "str_nat n \<noteq> []"
  by (subst str_nat.simps) simp

lemma str_nat_inj: "str_nat n = str_nat m \<Longrightarrow> n = m"
proof (induction n arbitrary: m rule: str_nat.induct)
  case (1 n)
  show ?case
  proof (cases "n < 10")
    case True
    then have n: "str_nat n = [digit n]" by (subst str_nat.simps) simp
    show ?thesis
    proof (cases "m < 10")
      case True
      then have "str_nat m = [digit m]" by (subst str_nat.simps) simp
      with n "1.prems" have "digit n = digit m" by simp
      with \<open>n < 10\<close> True show ?thesis by (rule_tac digit_inj)
    next
      case False
      then have "str_nat m = str_nat (m div 10) @ [digit (m mod 10)]"
        by (subst str_nat.simps) simp
      with n "1.prems" have "str_nat (m div 10) = []" by simp
      then show ?thesis using str_nat_nonempty by blast
    qed
  next
    case False
    then have n: "str_nat n = str_nat (n div 10) @ [digit (n mod 10)]"
      by (subst str_nat.simps) simp
    show ?thesis
    proof (cases "m < 10")
      case True
      then have "str_nat m = [digit m]" by (subst str_nat.simps) simp
      with n "1.prems" have "str_nat (n div 10) = []" by simp
      then show ?thesis using str_nat_nonempty by blast
    next
      case mf: False
      then have "str_nat m = str_nat (m div 10) @ [digit (m mod 10)]"
        by (subst str_nat.simps) simp
      with n "1.prems" have e: "str_nat (n div 10) = str_nat (m div 10)"
        and d: "digit (n mod 10) = digit (m mod 10)" by simp_all
      from "1.IH" [OF False e] have q: "n div 10 = m div 10" .
      have "n mod 10 = m mod 10" using d by (intro digit_inj) simp_all
      with q show ?thesis by (metis div_mult_mod_eq)
    qed
  qed
qed

lemma str_nat_hd: "hd (str_nat n) \<noteq> CHR ''-''"
proof (induction n rule: str_nat.induct)
  case (1 n)
  show ?case
  proof (cases "n < 10")
    case True
    then show ?thesis by (subst str_nat.simps) (simp add: digit_not_minus)
  next
    case False
    with 1 show ?thesis
      by (subst str_nat.simps) (simp add: str_nat_nonempty)
  qed
qed

lemma str_int_inj: "str_int i = str_int j \<longleftrightarrow> i = j"
proof
  assume e: "str_int i = str_int j"
  have neg: "str_nat a \<noteq> CHR ''-'' # s" for a s
    using str_nat_hd [of a] by (metis list.sel(1))
  show "i = j"
  proof (cases "i < 0"; cases "j < 0")
    assume "i < 0" "j < 0"
    with e have "nat (- i) = nat (- j)" by (simp add: str_int_def str_nat_inj)
    with \<open>i < 0\<close> \<open>j < 0\<close> show ?thesis by simp
  next
    assume "i < 0" "\<not> j < 0"
    with e neg show ?thesis by (simp add: str_int_def) metis
  next
    assume "\<not> i < 0" "j < 0"
    with e neg show ?thesis by (simp add: str_int_def)
  next
    assume "\<not> i < 0" "\<not> j < 0"
    with e have "nat i = nat j" by (simp add: str_int_def str_nat_inj)
    with \<open>\<not> i < 0\<close> \<open>\<not> j < 0\<close> show ?thesis by simp
  qed
qed simp

text \<open>
  Claim C8. The key of a chunk is a function of its source path and its index alone, and
  for a fixed source path two chunks have the same key exactly when they have the same
  index: identical (source, index) pairs give identical keys, distinct indices give
  distinct keys.
\<close>

theorem document_id_deterministic:
  "source_path c1 = source_path c2 \<Longrightarrow>
     (document_id c1 = document_id c2) = (chunk_id c1 = chunk_id c2)"
  by (simp add: document_id_def str_int_inj)

theorem document_id_deterministic_witness:
  "document_id \<lparr>chunk_id = 0, content = ''a'', source_path = ''docs/a.pdf'',
        file_name = ''a.pdf'', page_number = None, total_chunks = Some 2,
        embedding = (None :: unit option)\<rparr>
   \<noteq> document_id \<lparr>chunk_id = 1, content = ''b'', source_path = ''docs/a.pdf'',
        file_name = ''a.pdf'', page_number = None, total_chunks = Some 2,
        embedding = (None :: unit option)\<rparr>"
  using document_id_deterministic
    [of "\<lparr>chunk_id = 0, content = ''a'', source_path = ''docs/a.pdf'',
        file_name = ''a.pdf'', page_number = None, total_chunks = Some 2,
        embedding = (None :: unit option)\<rparr>"
        "\<lparr>chunk_id = 1, content = ''b'', source_path = ''docs/a.pdf'',
        file_name = ''a.pdf'', page_number = None, total_chunks = Some 2,
        embedding = (None :: unit option)\<rparr>"]
  by simp

text \<open>
  Claim C10. The key is not injective in the source path: a path with a separator
  (\<open>/\<close> or backslash) at some position and the path with an underscore at that position are
  different paths with the same key, for every chunk index.
\<close>

theorem document_id_collision:
  "c = CHR ''/'' \<or> c = CHR 0x5C \<Longrightarrow>
   source_path a = xs @ [c] @ ys \<Longrightarrow> source_path b = xs @ ''_'' @ ys \<Longrightarrow>
   chunk_id a = chunk_id b \<Longrightarrow>
   source_path a \<noteq> source_path b \<and> document_id a = document_id b"
  by (auto simp: document_id_def replace_char_def)

theorem document_id_collision_witness:
  "''docs/a.pdf'' \<noteq> ''docs_a.pdf'' \<and>
   document_id \<lparr>chunk_id = 3, content = ''x'', source_path = ''docs/a.pdf'',
        file_name = ''a.pdf'', page_number = None, total_chunks = None,
        embedding = (None :: unit option)\<rparr>
   = document_id \<lparr>chunk_id = 3, content = ''y'', source_path = ''docs_a.pdf'',
        file_name = ''a.pdf'', page_number = None, total_chunks = None,
        embedding = (None :: unit option)\<rparr>"
  using document_id_collision
    [of "CHR ''/''"
        "\<lparr>chunk_id = 3, content = ''x'', source_path = ''docs/a.pdf'',
        file_name = ''a.pdf'', page_number = None, total_chunks = None,
        embedding = (None :: unit option)\<rparr>"
        "''docs''" "''a.pdf''"
        "\<lparr>chunk_id = 3, content = ''y'', source_path = ''docs_a.pdf'',
        file_name = ''a.pdf'', page_number = None, total_chunks = None,
        embedding = (None :: unit option)\<rparr>"]
  by simp

section \<open>Text splitter\<close>

lemma split_by_size_le:
  assumes "split_by_size sp text = Inr xs" "s \<in> set xs"
  shows "int (length s) \<le> chunk_size sp"
proof (cases "chunk_size sp > 0")
  case True
  with assms obtain i where "s = slice text i (i + nat (chunk_size sp))"
    by (auto simp: split_by_size_def range_step_def)
  then have "length s \<le> nat (chunk_size sp)" by (simp add: slice_def)
  with True show ?thesis by linarith
next
  case False
  with assms show ?thesis
    by (auto simp: split_by_size_def range_step_def split: if_splits)
qed

lemma concat_results_all:
  assumes "concat_results rs = Inr ys"
    and "\<And>xs x. Inr xs \<in> set rs \<Longrightarrow> x \<in> set xs \<Longrightarrow> P x"
    and "y \<in> set ys"
  shows "P y"
  using assms
proof (induction rs arbitrary: ys rule: concat_results.induct)
  case 1
  then show ?case by simp
next
  case (2 e rs)
  then show ?case by simp
next
  case (3 xs rs)
  from "3.prems"(1) obtain zs where zs: "concat_results rs = Inr zs" and ys: "ys = xs @ zs"
    by (auto split: sum.splits)
  from "3.prems"(3) ys consider "y \<in> set xs" | "y \<in> set zs" by auto
  then show ?case
  proof cases
    case 1
    then show ?thesis using "3.prems"(2) [of xs y] by simp
  next
    case 2
    have "\<And>xs x. Inr xs \<in> set rs \<Longrightarrow> x \<in> set xs \<Longrightarrow> P x"
      using "3.prems"(2) by auto
    from "3.IH" [OF zs this "2"] show ?thesis .
  qed
qed

lemma split_text_le:
  "split_text sp t seps = Inr raw \<Longrightarrow> s \<in> set raw \<Longrightarrow> int (length s) \<le> chunk_size sp"
proof (induction sp t seps arbitrary: raw s rule: split_text.induct)
  case (1 sp t)
  then show ?case by (simp add: split_by_size_le)
next
  case (2 sp t separator remaining_separators)
  show ?case
  proof (cases "separator = []")
    case True
    with "2.prems" show ?thesis by (simp add: split_by_size_le)
  next
    case ne: False
    show ?thesis
    proof (cases "contains separator t")
      case False
      with ne "2.prems" "2.IH"(1) show ?thesis by simp
    next
      case True
      let ?f = "\<lambda>part. if int (length part) \<le> chunk_size sp then Inr [part]
                          else split_text sp part remaining_separators"
      from ne True "2.prems"(1)
      have c: "concat_results (map ?f (py_split separator t)) = Inr raw" by simp
      show ?thesis
      proof (rule concat_results_all [OF c _ "2.prems"(2)])
        fix xs x
        assume "Inr xs \<in> set (map ?f (py_split separator t))" and x: "x \<in> set xs"
        then obtain part where p: "part \<in> set (py_split separator t)" and f: "?f part = Inr xs"
          by auto
        show "int (length x) \<le> chunk_size sp"
        proof (cases "int (length part) \<le> chunk_size sp")
          case True
          with f x show ?thesis by auto
        next
          case False
          with f have "split_text sp part remaining_separators = Inr xs" by simp
          moreover have "\<not> \<not> contains separator t" using True by simp
          ultimately show ?thesis using "2.IH"(2) [OF ne _ p False _ x] by blast
        qed
      qed
    qed
  qed
qed

lemma merge_loop_empty:
  "\<forall>c \<in> set chunks. c = [] \<Longrightarrow> merge_loop sp chunks merged [] = (merged, [])"
  by (induction chunks) auto

lemma merge_loop_bound:
  assumes "1 \<le> chunk_size sp" "chunk_overlap sp < chunk_size sp"
    and "merge_loop sp chunks merged cur = (merged', cur')"
    and "\<forall>m \<in> set merged. \<exists>seg \<in> S. int (length m) \<le> chunk_size sp + int (length seg)"
    and "cur = [] \<or> (\<exists>seg \<in> S. int (length cur) \<le> chunk_size sp + int (length seg))"
    and "set chunks \<subseteq> S"
  shows "(\<forall>m \<in> set merged'. \<exists>seg \<in> S. int (length m) \<le> chunk_size sp + int (length seg))
       \<and> (cur' = [] \<or> (\<exists>seg \<in> S. int (length cur') \<le> chunk_size sp + int (length seg)))"
  using assms(3-)
proof (induction chunks arbitrary: merged cur)
  case Nil
  then show ?case by simp
next
  case (Cons chunk chunks)
  have cS: "chunk \<in> S" and rest: "set chunks \<subseteq> S" using Cons.prems(4) by auto
  show ?case
  proof (cases "cur \<noteq> [] \<and> int (length cur) + int (length chunk) + 1 > chunk_size sp")
    case True
    let ?cur = "drop (nat (max 0 (int (length cur) - chunk_overlap sp))) cur @ '' '' @ chunk"
    from True Cons.prems(1)
    have m: "merge_loop sp chunks (merged @ [cur]) ?cur = (merged', cur')" by (simp add: Let_def)
    have "int (length (drop (nat (max 0 (int (length cur) - chunk_overlap sp))) cur)) \<le> chunk_size sp - 1"
      using assms(1,2) by simp
    then have "int (length ?cur) \<le> chunk_size sp + int (length chunk)" by simp
    with cS have b: "?cur = [] \<or> (\<exists>seg \<in> S. int (length ?cur) \<le> chunk_size sp + int (length seg))"
      by blast
    from True Cons.prems(3)
    have "\<exists>seg \<in> S. int (length cur) \<le> chunk_size sp + int (length seg)" by simp
    with Cons.prems(2)
    have a: "\<forall>m \<in> set (merged @ [cur]). \<exists>seg \<in> S. int (length m) \<le> chunk_size sp + int (length seg)"
      by simp
    show ?thesis by (rule Cons.IH [OF m a b rest])
  next
    case False
    show ?thesis
    proof (cases "cur = []")
      case True
      with Cons.prems(1) have m: "merge_loop sp chunks merged chunk = (merged', cur')" by simp
      have "int (length chunk) \<le> chunk_size sp + int (length chunk)" using assms(1) by simp
      with cS have b: "chunk = [] \<or> (\<exists>seg \<in> S. int (length chunk) \<le> chunk_size sp + int (length seg))"
        by blast
      show ?thesis by (rule Cons.IH [OF m Cons.prems(2) b rest])
    next
      case ne: False
      let ?cur = "cur @ '' '' @ chunk"
      from ne False Cons.prems(1)
      have m: "merge_loop sp chunks merged ?cur = (merged', cur')" by simp
      from ne False have "int (length ?cur) \<le> chunk_size sp" by simp
      then have "int (length ?cur) \<le> chunk_size sp + int (length chunk)" by linarith
      with cS have b: "?cur = [] \<or> (\<exists>seg \<in> S. int (length ?cur) \<le> chunk_size sp + int (length seg))"
        by blast
      show ?thesis by (rule Cons.IH [OF m Cons.prems(2) b rest])
    qed
  qed
qed

lemma merge_chunks_bound:
  assumes "chunk_overlap sp < chunk_size sp"
    and "\<forall>s \<in> set raw. int (length s) \<le> chunk_size sp"
    and "m \<in> set (merge_chunks sp raw)"
  shows "\<exists>seg \<in> set raw. int (length m) \<le> chunk_size sp + int (length seg)"
proof (cases "1 \<le> chunk_size sp")
  case True
  obtain merged cur where ml: "merge_loop sp raw [] [] = (merged, cur)" by (cases "merge_loop sp raw [] []")
  from merge_loop_bound [OF True assms(1) ml, of "set raw"]
  have b: "\<forall>m \<in> set merged. \<exists>seg \<in> set raw. int (length m) \<le> chunk_size sp + int (length seg)"
    and c: "cur = [] \<or> (\<exists>seg \<in> set raw. int (length cur) \<le> chunk_size sp + int (length seg))"
    by simp_all
  from assms(3) ml have "m \<in> set merged \<or> (cur \<noteq> [] \<and> m = cur)"
    by (auto simp: merge_chunks_def split: if_splits)
  with b c show ?thesis by blast
next
  case False
  have "\<forall>c \<in> set raw. c = []"
  proof
    fix c assume "c \<in> set raw"
    with assms(2) have "int (length c) \<le> chunk_size sp" by blast
    with False have "length c = 0" by linarith
    then show "c = []" by simp
  qed
  then have "merge_loop sp raw [] [] = ([], [])" by (rule merge_loop_empty)
  with assms(3) show ?thesis by (simp add: merge_chunks_def split: if_splits)
qed

lemma length_strip_le: "length (strip s) \<le> length s"
  using length_dropWhile_le [of is_space "rev (dropWhile is_space s)"]
    length_dropWhile_le [of is_space s]
  by (simp add: strip_def)

text \<open>
  Claim C7. For a configuration with overlap below the chunk size, every chunk that
  \<open>split\<close> returns (the final one included) is at most the chunk size plus the length
  of one atomic segment long, where the atomic segments are what \<open>split_text\<close> returns
  for the stripped text; and no atomic segment is longer than the chunk size.
\<close>

theorem split_size_bound:
  assumes "chunk_overlap sp < chunk_size sp"
    and "split sp text src fname = Inr chunks"
    and "c \<in> set chunks"
  shows "\<exists>raw. split_text sp (strip text) (separators sp) = Inr raw
           \<and> (\<forall>s \<in> set raw. int (length s) \<le> chunk_size sp)
           \<and> (\<exists>seg \<in> set raw. int (length (content c)) \<le> chunk_size sp + int (length seg))"
proof -
  from assms(2,3) have ne: "\<not> (text = [] \<or> strip text = [])"
    by (auto simp: split_def split: if_splits)
  with assms(2) obtain raw where raw: "split_text sp (strip text) (separators sp) = Inr raw"
    by (auto simp: split_def split: sum.splits)
  have le: "\<forall>s \<in> set raw. int (length s) \<le> chunk_size sp"
    using split_text_le [OF raw] by blast
  from assms(2,3) ne raw obtain p where
    p: "p \<in> set (enumerate 0 (merge_chunks sp raw))" and c: "content c = strip (snd p)"
    by (auto simp: split_def Let_def make_chunk_def)
  from p have "fst p < length (merge_chunks sp raw)" "merge_chunks sp raw ! fst p = snd p"
    by (simp_all add: in_set_enumerate_eq)
  then have "snd p \<in> set (merge_chunks sp raw)"
    using nth_mem by force
  from merge_chunks_bound [OF assms(1) le this]
  obtain seg where seg: "seg \<in> set raw" "int (length (snd p)) \<le> chunk_size sp + int (length seg)"
    by blast
  have "length (content c) \<le> length (snd p)" unfolding c by (rule length_strip_le)
  with seg have "int (length (content c)) \<le> chunk_size sp + int (length seg)" by linarith
  with raw le seg(1) show ?thesis by blast
qed


theorem split_size_bound_witness:
  "\<exists>raw. split_text \<lparr>chunk_size = 3, chunk_overlap = 1, separators = DEFAULT_SEPARATORS\<rparr>
           (strip ''abcdefgh, ijkl mn'') DEFAULT_SEPARATORS = Inr raw
       \<and> (\<exists>seg \<in> set raw. int (length ''c def'') \<le> 3 + int (length seg))"
proof -
  let ?sp = "\<lparr>chunk_size = 3, chunk_overlap = 1, separators = DEFAULT_SEPARATORS\<rparr>"
  let ?c = "\<lparr>chunk_id = 1, content = ''c def'', source_path = ''docs/a.pdf'',
             file_name = ''a.pdf'', page_number = None, total_chunks = Some 6,
             embedding = (None :: unit option)\<rparr>"
  have h1: "chunk_overlap ?sp < chunk_size ?sp" by simp
  have h2: "split ?sp ''abcdefgh, ijkl mn'' ''docs/a.pdf'' ''a.pdf'' =
      Inr [\<lparr>chunk_id = 0, content = ''abc'', source_path = ''docs/a.pdf'',
             file_name = ''a.pdf'', page_number = None, total_chunks = Some 6,
             embedding = (None :: unit option)\<rparr>,
           ?c,
           \<lparr>chunk_id = 2, content = ''f gh'', source_path = ''docs/a.pdf'',
             file_name = ''a.pdf'', page_number = None, total_chunks = Some 6,
             embedding = None\<rparr>,
           \<lparr>chunk_id = 3, content = ''h ijk'', source_path = ''docs/a.pdf'',
             file_name = ''a.pdf'', page_number = None, total_chunks = Some 6,
             embedding = None\<rparr>,
           \<lparr>chunk_id = 4, content = ''k l'', source_path = ''docs/a.pdf'',
             file_name = ''a.pdf'', page_number = None, total_chunks = Some 6,
             embedding = None\<rparr>,
           \<lparr>chunk_id = 5, content = ''l mn'', source_path = ''docs/a.pdf'',
             file_name = ''a.pdf'', page_number = None, total_chunks = Some 6,
             embedding = None\<rparr>]"
    by code_simp
  have h3: "?c \<in> set [\<lparr>chunk_id = 0, content = ''abc'', source_path = ''docs/a.pdf'',
             file_name = ''a.pdf'', page_number = None, total_chunks = Some 6,
             embedding = (None :: unit option)\<rparr>,
           ?c,
           \<lparr>chunk_id = 2, content = ''f gh'', source_path = ''docs/a.pdf'',
             file_name = ''a.pdf'', page_number = None, total_chunks = Some 6,
             embedding = None\<rparr>,
           \<lparr>chunk_id = 3, content = ''h ijk'', source_path = ''docs/a.pdf'',
             file_name = ''a.pdf'', page_number = None, total_chunks = Some 6,
             embedding = None\<rparr>,
           \<lparr>chunk_id = 4, content = ''k l'', source_path = ''docs/a.pdf'',
             file_name = ''a.pdf'', page_number = None, total_chunks = Some 6,
             embedding = None\<rparr>,
           \<lparr>chunk_id = 5, content = ''l mn'', source_path = ''docs/a.pdf'',
             file_name = ''a.pdf'', page_number = None, total_chunks = Some 6,
             embedding = None\<rparr>]"
    by simp
  from split_size_bound [OF h1 h2 h3] show ?thesis by auto
qed

text \<open>
  Claim C1, on the input \<open>"ab   cd"\<close> (three spaces) with chunk size 3 and overlap 1.
  The merge pass produces three chunks, the middle one of spaces only; it is dropped, and
  the two chunks returned keep the positions they had before the drop: their indices are
  0 and 2, not 0 and 1.
\<close>

theorem split_index_gap:
  "TextSplitter_init default_settings (Some 3) (Some 1) None =
     Inr \<lparr>chunk_size = 3, chunk_overlap = 1, separators = DEFAULT_SEPARATORS\<rparr>
   \<and> merge_chunks \<lparr>chunk_size = 3, chunk_overlap = 1, separators = DEFAULT_SEPARATORS\<rparr>
       [''ab'', [], [], ''cd''] = [''ab '', ''  '', ''  cd'']
   \<and> map_sum id (map chunk_id)
       (split \<lparr>chunk_size = 3, chunk_overlap = 1, separators = DEFAULT_SEPARATORS\<rparr>
          ''ab   cd'' ''docs/a.pdf'' ''a.pdf'' :: error + unit Chunk list) = Inr [0, 2]"
  by code_simp

text \<open>
  Claim C2, on the same input. The count stamped on the chunks is taken before the
  whitespace-only chunk is dropped: both returned chunks carry \<open>total_chunks = 3\<close>, and
  two chunks are returned.
\<close>

theorem split_total_chunks_stale:
  "map_sum id (map total_chunks)
       (split \<lparr>chunk_size = 3, chunk_overlap = 1, separators = DEFAULT_SEPARATORS\<rparr>
          ''ab   cd'' ''docs/a.pdf'' ''a.pdf'' :: error + unit Chunk list) = Inr [Some 3, Some 3]
   \<and> map_sum id length
       (split \<lparr>chunk_size = 3, chunk_overlap = 1, separators = DEFAULT_SEPARATORS\<rparr>
          ''ab   cd'' ''docs/a.pdf'' ''a.pdf'' :: error + unit Chunk list) = Inr 2"
  by code_simp

section \<open>Embedding batcher: retry policy\<close>

lemma backoff_delay_0: "backoff_delay 0 = INITIAL_RETRY_DELAY"
  by (simp add: backoff_delay_def INITIAL_RETRY_DELAY_def MAX_RETRY_DELAY_def)

lemma backoff_delay_Suc: "backoff_delay (Suc j) = min (backoff_delay j * 2) MAX_RETRY_DELAY"
  by (simp add: backoff_delay_def INITIAL_RETRY_DELAY_def MAX_RETRY_DELAY_def min_def)

lemma embed_batch_attempt:
  "embed_batch remote texts w = (attempt remote texts (calls w), w\<lparr>calls := calls w + 1\<rparr>)"
  by (simp add: embed_batch_def attempt_def Let_def split: sum.splits)

lemma retry_loop_retry:
  assumes "attempt remote texts (calls w) = Inl e" "retryable e"
  shows "retry_loop remote texts (Suc n) d le w =
         retry_loop remote texts n (min (d * 2) MAX_RETRY_DELAY) (Some e)
           (w\<lparr>calls := calls w + 1, sleeps := sleeps w @ [d]\<rparr>)"
  using assms
  by (cases e) (auto simp: embed_batch_attempt retryable_def split: option.splits)

lemma retry_loop_stop:
  assumes "\<forall>e. attempt remote texts (calls w) = Inl e \<longrightarrow> \<not> retryable e"
  shows "retry_loop remote texts (Suc n) d le w =
         (attempt remote texts (calls w), w\<lparr>calls := calls w + 1\<rparr>)"
proof (cases "attempt remote texts (calls w)")
  case (Inr vs)
  then show ?thesis by (simp add: embed_batch_attempt)
next
  case (Inl e)
  with assms have "\<not> retryable e" by simp
  with Inl show ?thesis
    by (cases e) (auto simp: embed_batch_attempt retryable_def split: option.splits)
qed

lemma retry_loop_failures:
  assumes "\<forall>j<k. \<exists>e. attempt remote texts (calls w + j) = Inl e \<and> retryable e"
    and "k \<le> n"
  shows "retry_loop remote texts n (backoff_delay j0) le w =
         retry_loop remote texts (n - k) (backoff_delay (j0 + k))
           (if k = 0 then le else Some (projl (attempt remote texts (calls w + k - 1))))
           (w\<lparr>calls := calls w + k, sleeps := sleeps w @ map backoff_delay [j0..<j0 + k]\<rparr>)"
  using assms
proof (induction k arbitrary: n j0 le w)
  case 0
  then show ?case by simp
next
  case (Suc k)
  from Suc.prems(2) obtain n' where n: "n = Suc n'" and kn: "k \<le> n'" by (cases n) auto
  from Suc.prems(1) obtain e where e: "attempt remote texts (calls w) = Inl e" "retryable e"
    by force
  let ?w1 = "w\<lparr>calls := calls w + 1, sleeps := sleeps w @ [backoff_delay j0]\<rparr>"
  have step: "retry_loop remote texts n (backoff_delay j0) le w =
      retry_loop remote texts n' (backoff_delay (Suc j0)) (Some e) ?w1"
    unfolding n backoff_delay_Suc by (rule retry_loop_retry [OF e])
  have fails: "\<forall>j<k. \<exists>e. attempt remote texts (calls ?w1 + j) = Inl e \<and> retryable e"
  proof (intro allI impI)
    fix j assume "j < k"
    then have "Suc j < Suc k" by simp
    with Suc.prems(1) obtain e' where "attempt remote texts (calls w + Suc j) = Inl e' \<and> retryable e'"
      by blast
    then show "\<exists>e. attempt remote texts (calls ?w1 + j) = Inl e \<and> retryable e" by auto
  qed
  have upt: "[j0..<j0 + Suc k] = j0 # [Suc j0..<Suc j0 + k]"
    by (simp add: upt_conv_Cons)
  have last_e: "(if k = 0 then Some e else Some (projl (attempt remote texts (calls ?w1 + k - 1))))
      = Some (projl (attempt remote texts (calls w + Suc k - 1)))"
    using e(1) by (cases k) auto
  note step
  also have "retry_loop remote texts n' (backoff_delay (Suc j0)) (Some e) ?w1 =
      retry_loop remote texts (n' - k) (backoff_delay (Suc j0 + k))
        (if k = 0 then Some e else Some (projl (attempt remote texts (calls ?w1 + k - 1))))
        (?w1\<lparr>calls := calls ?w1 + k,
              sleeps := sleeps ?w1 @ map backoff_delay [Suc j0..<Suc j0 + k]\<rparr>)"
    by (rule Suc.IH [OF fails kn])
  also have "\<dots> = retry_loop remote texts (n - Suc k) (backoff_delay (j0 + Suc k))
        (if Suc k = 0 then le else Some (projl (attempt remote texts (calls w + Suc k - 1))))
        (w\<lparr>calls := calls w + Suc k,
            sleeps := sleeps w @ map backoff_delay [j0..<j0 + Suc k]\<rparr>)"
    unfolding last_e upt n by (simp del: retry_loop.simps)
  finally show ?case .
qed

text \<open>
  Claim C4. Let the first \<open>k\<close> calls made for a batch (\<open>k\<close> at most \<open>MAX_RETRIES\<close>)
  fail with a retryable error: a rate limit, a connection failure, or an API error with a
  5xx status; and when \<open>k < MAX_RETRIES\<close>, let the next call not fail with a retryable
  error. Then the batcher has slept \<open>k\<close> times, for \<open>backoff_delay 0\<close>, ...,
  \<open>backoff_delay (k - 1)\<close> seconds, a delay that starts at \<open>INITIAL_RETRY_DELAY\<close> and
  doubles up to \<open>MAX_RETRY_DELAY\<close>. When \<open>k < MAX_RETRIES\<close> it has made \<open>k + 1\<close>
  calls and returns the outcome of the last one: the embeddings, or the non-retryable
  error, raised with no further wait and no further call. When \<open>k = MAX_RETRIES\<close> it has
  made \<open>MAX_RETRIES\<close> calls and raises the error of the last one.
\<close>

theorem embed_batch_with_retry_policy:
  assumes "k \<le> MAX_RETRIES"
    and "\<forall>j<k. \<exists>e. attempt remote texts (calls w + j) = Inl e \<and> retryable e"
    and "k < MAX_RETRIES \<longrightarrow> (\<forall>e. attempt remote texts (calls w + k) = Inl e \<longrightarrow> \<not> retryable e)"
  shows "embed_batch_with_retry remote texts w =
           (if k < MAX_RETRIES
            then (attempt remote texts (calls w + k),
                  w\<lparr>calls := calls w + k + 1, sleeps := sleeps w @ map backoff_delay [0..<k]\<rparr>)
            else (Inl (projl (attempt remote texts (calls w + k - 1))),
                  w\<lparr>calls := calls w + k, sleeps := sleeps w @ map backoff_delay [0..<k]\<rparr>))
         \<and> backoff_delay 0 = INITIAL_RETRY_DELAY
         \<and> (\<forall>j. backoff_delay (Suc j) = min (backoff_delay j * 2) MAX_RETRY_DELAY)"
proof -
  have start: "INITIAL_RETRY_DELAY = backoff_delay 0" by (simp add: backoff_delay_0)
  have run: "embed_batch_with_retry remote texts w =
      retry_loop remote texts (MAX_RETRIES - k) (backoff_delay k)
        (if k = 0 then None else Some (projl (attempt remote texts (calls w + k - 1))))
        (w\<lparr>calls := calls w + k, sleeps := sleeps w @ map backoff_delay [0..<k]\<rparr>)"
    unfolding embed_batch_with_retry_def start
    using retry_loop_failures [OF assms(2,1), of 0 None] by simp
  have main: "embed_batch_with_retry remote texts w =
           (if k < MAX_RETRIES
            then (attempt remote texts (calls w + k),
                  w\<lparr>calls := calls w + k + 1, sleeps := sleeps w @ map backoff_delay [0..<k]\<rparr>)
            else (Inl (projl (attempt remote texts (calls w + k - 1))),
                  w\<lparr>calls := calls w + k, sleeps := sleeps w @ map backoff_delay [0..<k]\<rparr>))"
  proof (cases "k < MAX_RETRIES")
    case True
    then obtain m where m: "MAX_RETRIES - k = Suc m" by (cases "MAX_RETRIES - k") auto
    let ?w = "w\<lparr>calls := calls w + k, sleeps := sleeps w @ map backoff_delay [0..<k]\<rparr>"
    from True assms(3)
    have "\<forall>e. attempt remote texts (calls ?w) = Inl e \<longrightarrow> \<not> retryable e" by simp
    from retry_loop_stop [OF this] True show ?thesis
      unfolding run m by simp
  next
    case False
    with assms(1) have k: "k = MAX_RETRIES" by simp
    then have pos: "0 < k" by (simp add: MAX_RETRIES_def)
    then have "k - 1 < k" by simp
    with assms(2) obtain e where "attempt remote texts (calls w + (k - 1)) = Inl e" by blast
    with pos have "attempt remote texts (calls w + k - 1) = Inl e" by simp
    with pos False show ?thesis unfolding run k [symmetric] by simp
  qed
  from main show ?thesis by (simp add: backoff_delay_0 backoff_delay_Suc)
qed


theorem embed_batch_with_retry_policy_witness:
  "embed_batch_with_retry
     (\<lambda>c xs. if c < 2 then Inl RateLimitError else Inr [(0, 7::nat)])
     [''hello''] \<lparr>calls = 0, sleeps = []\<rparr>
   = (Inr [Some 7], \<lparr>calls = 3, sleeps = [1, 2]\<rparr>)"
proof -
  let ?remote = "\<lambda>(c::nat) (xs::string list). if c < 2 then Inl RateLimitError else Inr [(0::int, 7::nat)]"
  let ?w = "\<lparr>calls = 0, sleeps = []\<rparr>"
  have a: "attempt ?remote [''hello''] c = (if c < 2 then Inl RateLimitError else Inr [Some 7])" for c
    by (simp add: attempt_def embed_batch_def)
  have h1: "2 \<le> MAX_RETRIES" by (simp add: MAX_RETRIES_def)
  have h2: "\<forall>j<2. \<exists>e. attempt ?remote [''hello''] (calls ?w + j) = Inl e \<and> retryable e"
    by (simp add: a retryable_def)
  have h3: "2 < MAX_RETRIES \<longrightarrow>
      (\<forall>e. attempt ?remote [''hello''] (calls ?w + 2) = Inl e \<longrightarrow> \<not> retryable e)"
    by (simp add: a)
  have d: "map backoff_delay [0..<2] = [1, 2]"
    by (simp add: numeral_2_eq_2 backoff_delay_def INITIAL_RETRY_DELAY_def MAX_RETRY_DELAY_def)
  from embed_batch_with_retry_policy [OF h1 h2 h3] show ?thesis
    by (simp add: a d MAX_RETRIES_def)
qed

section \<open>Embedding batcher: alignment\<close>

lemma place_fold:
  "\<forall>p \<in> set data. 0 \<le> fst p \<and> fst p < int (length embs) \<Longrightarrow>
   place data embs = Inr (fold (\<lambda>p e. e[nat (fst p) := Some (snd p)]) data embs)"
proof (induction data arbitrary: embs)
  case Nil
  then show ?case by simp
next
  case (Cons p data)
  obtain i v where p: "p = (i, v)" by (cases p)
  from Cons.prems p have r: "0 \<le> i" "i < int (length embs)" by auto
  from Cons.prems have "\<forall>q \<in> set data. 0 \<le> fst q \<and> fst q < int (length (embs[nat i := Some v]))"
    by simp
  from Cons.IH [OF this] r show ?case by (simp add: p)
qed

lemma length_fold_update:
  "length (fold (\<lambda>p e. e[nat (fst p) := Some (snd p)]) data embs) = length embs"
  by (induction data arbitrary: embs) auto

lemma fold_update_untouched:
  "\<forall>p \<in> set data. nat (fst p) \<noteq> j \<Longrightarrow>
   fold (\<lambda>p e. e[nat (fst p) := Some (snd p)]) data embs ! j = embs ! j"
  by (induction data arbitrary: embs) auto

lemma fold_update_nth:
  assumes "distinct (map fst data)" "(i, v) \<in> set data"
    and "\<forall>p \<in> set data. 0 \<le> fst p" "nat i < length embs"
  shows "fold (\<lambda>p e. e[nat (fst p) := Some (snd p)]) data embs ! nat i = Some v"
  using assms
proof (induction data arbitrary: embs)
  case Nil
  then show ?case by simp
next
  case (Cons p data)
  show ?case
  proof (cases "p = (i, v)")
    case True
    have "\<forall>q \<in> set data. nat (fst q) \<noteq> nat i"
    proof
      fix q assume q: "q \<in> set data"
      with Cons.prems(1) True have "fst q \<noteq> i" by auto
      moreover from q Cons.prems(3) True have "0 \<le> fst q" "0 \<le> i" by auto
      ultimately show "nat (fst q) \<noteq> nat i" by simp
    qed
    from fold_update_untouched [OF this] True Cons.prems(4) show ?thesis by simp
  next
    case False
    with Cons.prems(2) have m: "(i, v) \<in> set data" by simp
    from Cons.prems(1) have d: "distinct (map fst data)" by simp
    from Cons.prems(3) have n: "\<forall>q \<in> set data. 0 \<le> fst q" by simp
    from Cons.prems(4) have l: "nat i < length (embs[nat (fst p) := Some (snd p)])" by simp
    from Cons.IH [OF d m n l] show ?thesis by simp
  qed
qed

lemma place_faithful:
  assumes "mset data = mset (zip (map int [0..<n]) ys)" "length ys = n"
  shows "place data (replicate n None) = Inr (map Some ys)"
proof -
  let ?z = "zip (map int [0..<n]) ys"
  have s: "set data = set ?z" using assms(1) by (rule mset_eq_setD)
  have range: "\<forall>p \<in> set data. 0 \<le> fst p \<and> fst p < int (length (replicate n (None :: 'a option)))"
    unfolding s using assms(2) by (auto simp: set_zip)
  have "mset (map fst data) = mset (map fst ?z)"
    using assms(1) by (metis mset_map)
  also have "map fst ?z = map int [0..<n]" using assms(2) by simp
  finally have "distinct (map fst data) = distinct (map int [0..<n])"
    by (rule mset_eq_imp_distinct_iff)
  then have dist: "distinct (map fst data)" by (simp add: distinct_map)
  let ?r = "fold (\<lambda>p e. e[nat (fst p) := Some (snd p)]) data (replicate n None)"
  have "?r = map Some ys"
  proof (rule nth_equalityI)
    show "length ?r = length (map Some ys)" using assms(2) by (simp add: length_fold_update)
  next
    fix j assume "j < length ?r"
    then have j: "j < n" by (simp add: length_fold_update)
    with assms(2) have "(int j, ys ! j) \<in> set ?z" by (force simp: set_zip)
    then have m: "(int j, ys ! j) \<in> set data" unfolding s .
    have nn: "\<forall>p \<in> set data. 0 \<le> fst p" using range by blast
    have "nat (int j) < length (replicate n (None :: 'a option))" using j by simp
    from fold_update_nth [OF dist m nn this] j assms(2) show "?r ! j = map Some ys ! j" by simp
  qed
  with place_fold [OF range] show ?thesis by simp
qed

lemma embed_batch_faithful:
  assumes "\<forall>k xs data. remote k xs = Inr data \<longrightarrow>
             mset data = mset (zip (map int [0..<length xs]) (map emb xs))"
    and "embed_batch remote texts w = (Inr vs, w')"
  shows "vs = map (\<lambda>t. Some (emb (clean_text t))) texts"
proof -
  from assms(2) obtain data where d: "remote (calls w) (map clean_text texts) = Inr data"
    and p: "place data (replicate (length texts) None) = Inr vs"
    by (auto simp: embed_batch_def Let_def split: sum.splits)
  from assms(1) d have "mset data = mset (zip (map int [0..<length (map clean_text texts)])
      (map emb (map clean_text texts)))" by blast
  then have "mset data = mset (zip (map int [0..<length texts]) (map emb (map clean_text texts)))"
    by simp
  from place_faithful [OF this] p show ?thesis by (simp add: comp_def)
qed

lemma retry_loop_result:
  "retry_loop remote texts n d le w = (Inr vs, w') \<Longrightarrow>
   \<exists>w0 w1. embed_batch remote texts w0 = (Inr vs, w1)"
proof (induction n arbitrary: d le w)
  case 0
  then show ?case by (simp split: option.splits)
next
  case (Suc n)
  obtain r w1 where eb: "embed_batch remote texts w = (r, w1)" by (cases "embed_batch remote texts w")
  show ?case
  proof (cases r)
    case (Inr us)
    with Suc.prems eb have "us = vs" by simp
    with Inr eb show ?thesis by blast
  next
    case (Inl e)
    with Suc.prems eb show ?thesis
      by (cases e) (auto split: option.splits if_splits dest: Suc.IH)
  qed
qed

lemma embed_batches_result:
  assumes "\<forall>k xs data. remote k xs = Inr data \<longrightarrow>
             mset data = mset (zip (map int [0..<length xs]) (map emb xs))"
    and "embed_batches svc remote texts starts acc w = (Inr vs, w')"
  shows "vs = acc @ concat (map (\<lambda>i. map (\<lambda>t. Some (emb (clean_text t)))
                                        (slice texts i (i + nat (batch_size svc)))) starts)"
  using assms(2)
proof (induction starts arbitrary: acc w)
  case Nil
  then show ?case by simp
next
  case (Cons i starts)
  let ?batch = "slice texts i (i + nat (batch_size svc))"
  obtain r w1 where br: "embed_batch_with_retry remote ?batch w = (r, w1)"
    by (cases "embed_batch_with_retry remote ?batch w")
  show ?case
  proof (cases r)
    case (Inl e)
    with Cons.prems br show ?thesis by simp
  next
    case (Inr us)
    with br obtain w0 w2 where "embed_batch remote ?batch w0 = (Inr us, w2)"
      unfolding embed_batch_with_retry_def by (blast dest: retry_loop_result)
    from embed_batch_faithful [OF assms(1) this]
    have us: "us = map (\<lambda>t. Some (emb (clean_text t))) ?batch" .
    from Cons.prems br Inr
    have "embed_batches svc remote texts starts (acc @ us) w1 = (Inr vs, w')" by simp
    from Cons.IH [OF this] us show ?thesis by simp
  qed
qed

lemma concat_slices:
  "concat (map (\<lambda>i. map f (slice xs i (i + b))) (map (\<lambda>k. k * b) [0..<m])) = map f (take (m * b) xs)"
proof (induction m)
  case 0
  then show ?case by simp
next
  case (Suc m)
  have "take (m * b + b) xs = take (m * b) xs @ take b (drop (m * b) xs)"
    by (rule take_add)
  with Suc show ?case by (simp add: slice_def add.commute)
qed

lemma range_step_covers:
  assumes "0 < step" "range_step n step = Inr starts"
  shows "concat (map (\<lambda>i. map f (slice xs i (i + nat step))) starts)
         = map f (take (((n + nat step - 1) div nat step) * nat step) xs)"
    and "n \<le> ((n + nat step - 1) div nat step) * nat step"
proof -
  from assms have s: "starts = map (\<lambda>k. k * nat step) [0..<(n + nat step - 1) div nat step]"
    by (simp add: range_step_def)
  show "concat (map (\<lambda>i. map f (slice xs i (i + nat step))) starts)
         = map f (take (((n + nat step - 1) div nat step) * nat step) xs)"
    unfolding s by (rule concat_slices)
  have b: "0 < nat step" using assms(1) by simp
  define q where "q = (n + nat step - 1) div nat step"
  have "n + nat step - 1 < q * nat step + nat step"
    unfolding q_def using b
    by (metis add.commute div_mult_mod_eq add_less_cancel_left mod_less_divisor mult.commute)
  with b show "n \<le> ((n + nat step - 1) div nat step) * nat step"
    unfolding q_def by linarith
qed

lemma retry_loop_success:
  assumes "embed_batch remote texts w = (Inr vs, w')"
  shows "retry_loop remote texts (Suc n) d le w = (Inr vs, w')"
  using assms by simp

lemma embed_batches_total:
  assumes "\<forall>k xs. \<exists>data. remote k xs = Inr data"
    and "\<forall>k xs data. remote k xs = Inr data \<longrightarrow>
             mset data = mset (zip (map int [0..<length xs]) (map emb xs))"
  shows "\<exists>vs w'. embed_batches svc remote texts starts acc w = (Inr vs, w')"
proof (induction starts arbitrary: acc w)
  case Nil
  then show ?case by simp
next
  case (Cons i starts)
  let ?batch = "slice texts i (i + nat (batch_size svc))"
  from assms(1) obtain data where d: "remote (calls w) (map clean_text ?batch) = Inr data" by blast
  with assms(2) have "mset data = mset (zip (map int [0..<length (map clean_text ?batch)])
      (map emb (map clean_text ?batch)))" by blast
  then have "mset data = mset (zip (map int [0..<length ?batch]) (map emb (map clean_text ?batch)))"
    by simp
  from place_faithful [OF this]
  have "place data (replicate (length ?batch) None) = Inr (map Some (map emb (map clean_text ?batch)))"
    by simp
  with d have "embed_batch remote ?batch w =
      (Inr (map Some (map emb (map clean_text ?batch))), w\<lparr>calls := calls w + 1\<rparr>)"
    by (simp add: embed_batch_def Let_def)
  then have "embed_batch_with_retry remote ?batch w =
      (Inr (map Some (map emb (map clean_text ?batch))), w\<lparr>calls := calls w + 1\<rparr>)"
    by (simp add: embed_batch_with_retry_def MAX_RETRIES_def numeral_3_eq_3)
  with Cons.IH show ?case by simp
qed

text \<open>
  Claim C3. Let the batch size be positive and let every response of the remote service
  hold, in any order, exactly one item for each position of the request, indexed by that
  position and carrying the embedding \<open>emb\<close> of the text sent at that position. Then
  whenever \<open>embed_texts\<close> returns, it returns as many vectors as there are texts, and the
  vector at position \<open>i\<close> is the embedding of the (sanitized) text \<open>i\<close>; and when
  no call of the remote service fails, \<open>embed_texts\<close> does return.
\<close>

theorem embed_texts_aligned:
  assumes "0 < batch_size svc"
    and "\<forall>k xs data. remote k xs = Inr data \<longrightarrow>
             mset data = mset (zip (map int [0..<length xs]) (map emb xs))"
  shows "(\<forall>vs w'. embed_texts svc remote texts w = (Inr vs, w') \<longrightarrow>
            length vs = length texts
            \<and> (\<forall>i<length texts. vs ! i = Some (emb (clean_text (texts ! i)))))
       \<and> ((\<forall>k xs. \<exists>data. remote k xs = Inr data) \<longrightarrow>
            (\<exists>vs w'. embed_texts svc remote texts w = (Inr vs, w')))"
proof (intro conjI allI impI)
  fix vs w'
  assume e: "embed_texts svc remote texts w = (Inr vs, w')"
  have "vs = map (\<lambda>t. Some (emb (clean_text t))) texts"
  proof (cases "texts = []")
    case True
    with e show ?thesis by (simp add: embed_texts_def)
  next
    case False
    from assms(1) obtain starts where
      st: "range_step (length texts) (batch_size svc) = Inr starts"
      by (simp add: range_step_def)
    with e False have "embed_batches svc remote texts starts [] w = (Inr vs, w')"
      by (simp add: embed_texts_def)
    from embed_batches_result [OF assms(2) this]
    have "vs = concat (map (\<lambda>i. map (\<lambda>t. Some (emb (clean_text t)))
                                        (slice texts i (i + nat (batch_size svc)))) starts)"
      by simp
    also have "\<dots> = map (\<lambda>t. Some (emb (clean_text t)))
        (take (((length texts + nat (batch_size svc) - 1) div nat (batch_size svc))
                * nat (batch_size svc)) texts)"
      by (rule range_step_covers(1) [OF assms(1) st])
    also have "\<dots> = map (\<lambda>t. Some (emb (clean_text t))) texts"
      using range_step_covers(2) [OF assms(1) st] by simp
    finally show ?thesis .
  qed
  then show "length vs = length texts" by simp
  fix i assume "i < length texts"
  with \<open>vs = map (\<lambda>t. Some (emb (clean_text t))) texts\<close>
  show "vs ! i = Some (emb (clean_text (texts ! i)))" by simp
next
  assume t: "\<forall>k xs. \<exists>data. remote k xs = Inr data"
  show "\<exists>vs w'. embed_texts svc remote texts w = (Inr vs, w')"
  proof (cases "texts = []")
    case True
    then show ?thesis by (simp add: embed_texts_def)
  next
    case False
    from assms(1) obtain starts where
      st: "range_step (length texts) (batch_size svc) = Inr starts"
      by (simp add: range_step_def)
    from embed_batches_total [OF t assms(2), of svc texts starts "[]" w] False st
    show ?thesis by (simp add: embed_texts_def)
  qed
qed


theorem embed_texts_aligned_witness:
  "\<exists>vs w'. embed_texts \<lparr>batch_size = 2\<rparr>
       (\<lambda>k xs. Inr (rev (zip (map int [0..<length xs]) (map length xs))))
       [''a'', ''bb'', ''ccc''] \<lparr>calls = 0, sleeps = []\<rparr> = (Inr vs, w')
     \<and> length vs = 3 \<and> vs ! 0 = Some 1 \<and> vs ! 1 = Some 2 \<and> vs ! 2 = Some 3"
proof -
  let ?svc = "\<lparr>batch_size = 2\<rparr>"
  let ?remote = "\<lambda>(k::nat) (xs::string list).
      (Inr (rev (zip (map int [0..<length xs]) (map length xs))) :: error + (int \<times> nat) list)"
  let ?texts = "[''a'', ''bb'', ''ccc'']"
  let ?w = "\<lparr>calls = 0, sleeps = []\<rparr>"
  have h1: "0 < batch_size ?svc" by simp
  have h2: "\<forall>k xs data. ?remote k xs = Inr data \<longrightarrow>
             mset data = mset (zip (map int [0..<length xs]) (map length xs))"
    by auto
  have h3: "\<forall>k xs. \<exists>data. ?remote k xs = Inr data" by simp
  from embed_texts_aligned [OF h1 h2, of ?texts ?w] h3
  obtain vs w' where e: "embed_texts ?svc ?remote ?texts ?w = (Inr vs, w')"
    and l: "length vs = length ?texts"
    and n: "\<forall>i<length ?texts. vs ! i = Some (length (clean_text (?texts ! i)))"
    by blast
  have c: "clean_text ''a'' = ''a''" "clean_text ''bb'' = ''bb''" "clean_text ''ccc'' = ''ccc''"
    by (simp_all add: clean_text_def strip_def is_space_def)
  from n have "vs ! 0 = Some 1" "vs ! 1 = Some 2" "vs ! 2 = Some 3"
    by (simp_all add: c)
  with e l show ?thesis by simp
qed

section \<open>Index reconciliation\<close>




lemma length_attach_embeddings:
  "length (attach_embeddings chunks es) = length chunks"
  by (simp add: attach_embeddings_def)









text \<open>
  Claim C6, on one chunk handed over with an empty list of vectors (lengths 1 and 0):
  \<open>upsert_chunks\<close> raises nothing, uploads the chunk without a vector and returns
  \<open>(1, 0)\<close>. The test \<open>if embeddings and ...\<close> takes the empty list for no list.
\<close>

theorem upsert_chunks_empty_embeddings_accepted:
  "length ([] :: nat option list) \<noteq>
     length [\<lparr>chunk_id = 0, content = ''a'', source_path = ''docs/a.pdf'',
               file_name = ''a.pdf'', page_number = None, total_chunks = Some 1,
               embedding = (None :: nat option)\<rparr>]
   \<and> upsert_chunks accepting_client
       [\<lparr>chunk_id = 0, content = ''a'', source_path = ''docs/a.pdf'',
          file_name = ''a.pdf'', page_number = None, total_chunks = Some 1,
          embedding = (None :: nat option)\<rparr>]
       (Some []) ''2024-01-01T00:00:00'' []
     = (Inr (1, 0),
        [UploadDocuments
          [\<lparr>doc_id = ''docs_a.pdf#chunk_0'', doc_content = ''a'',
             doc_sourcePath = ''docs/a.pdf'', doc_fileName = ''a.pdf'',
             doc_chunkId = 0, doc_processedAt = ''2024-01-01T00:00:00Z'',
             doc_contentVector = None, doc_pageNumber = None,
             doc_totalChunks = Some 1\<rparr>]])"
  by code_simp

text \<open>
  The length check does fire when both lists are non-empty and differ in length: then
  \<open>ValueError\<close> is raised and \<open>upsert_chunks\<close> has made no call to the index store.
\<close>

lemma upsert_chunks_length_check:
  "chunks \<noteq> [] \<Longrightarrow> embs \<noteq> [] \<Longrightarrow> length embs \<noteq> length chunks \<Longrightarrow>
   upsert_chunks client chunks (Some embs) now hist = (Inl ValueError, hist)"
  by (simp add: upsert_chunks_def truthy_def)

lemma upt_0_Suc_shift: "[0..<Suc n] = 0 # map Suc [0..<n]"
  by (simp only: map_Suc_upt upt_conv_Cons [of 0 "Suc n"] zero_less_Suc)

lemma upsert_batches_exact:
  "upsert_batches client docs starts s0 f0 h =
     ((s0 + sum_list (map (\<lambda>j.
              case upload_documents client
                     (h @ map UploadDocuments
                            (take j (map (\<lambda>i. slice docs i (i + BATCH_SIZE)) starts)))
                     (map (\<lambda>i. slice docs i (i + BATCH_SIZE)) starts ! j) of
                Inr rs \<Rightarrow> length (filter (\<lambda>r. r) rs)
              | Inl e \<Rightarrow> 0) [0..<length starts]),
       f0 + sum_list (map (\<lambda>j.
              case upload_documents client
                     (h @ map UploadDocuments
                            (take j (map (\<lambda>i. slice docs i (i + BATCH_SIZE)) starts)))
                     (map (\<lambda>i. slice docs i (i + BATCH_SIZE)) starts ! j) of
                Inr rs \<Rightarrow> length rs - length (filter (\<lambda>r. r) rs)
              | Inl e \<Rightarrow> length (map (\<lambda>i. slice docs i (i + BATCH_SIZE)) starts ! j))
              [0..<length starts])),
      h @ map UploadDocuments (map (\<lambda>i. slice docs i (i + BATCH_SIZE)) starts))"
proof (induction starts arbitrary: s0 f0 h)
  case Nil
  then show ?case by simp
next
  case (Cons i starts)
  let ?b = "slice docs i (i + BATCH_SIZE)"
  have ub: "upsert_batch client ?b h =
      (((case upload_documents client h ?b of Inr rs \<Rightarrow> length (filter (\<lambda>r. r) rs) | Inl e \<Rightarrow> 0),
        (case upload_documents client h ?b of
           Inr rs \<Rightarrow> length rs - length (filter (\<lambda>r. r) rs) | Inl e \<Rightarrow> length ?b)),
       h @ [UploadDocuments ?b])"
    by (simp add: upsert_batch_def count_succeeded_def Let_def split: sum.splits)
  have idx: "[0..<length (i # starts)] = 0 # map Suc [0..<length starts]"
    using upt_0_Suc_shift [of "length starts"] by simp
  show ?case
    unfolding upsert_batches.simps ub prod.case Cons.IH idx
    by (simp add: comp_def add.assoc cong: sum.case_cong)
qed

lemma sum_list_upt_nth:
  "(\<And>j. j < length bs \<Longrightarrow> a j + b j = length (bs ! j)) \<Longrightarrow>
   sum_list (map a [0..<length bs]) + sum_list (map b [0..<length bs]) = length (concat bs)"
proof -
  assume h: "\<And>j. j < length bs \<Longrightarrow> a j + b j = length (bs ! j)"
  have "sum_list (map a [0..<length bs]) + sum_list (map b [0..<length bs])
      = sum_list (map (\<lambda>j. a j + b j) [0..<length bs])"
    by (simp add: sum_list_addf)
  also have "map (\<lambda>j. a j + b j) [0..<length bs] = map (\<lambda>j. length (bs ! j)) [0..<length bs]"
    using h by simp
  also have "\<dots> = map length (map (\<lambda>j. bs ! j) [0..<length bs])" by (simp add: comp_def)
  also have "\<dots> = map length bs" by (simp only: map_nth)
  finally show ?thesis by (simp add: length_concat)
qed

text \<open>
  Claim C9. When the length check does not fire, \<open>upsert_chunks\<close> raises nothing. It
  uploads the documents in consecutive batches of at most \<open>BATCH_SIZE\<close>, in order, and
  returns a pair of counts. Each batch adds to the pair according to the outcome of its
  upload call: a call that returns adds the number of results that succeeded to the
  success count and the number of the other results to the failure count; a call that
  raises adds nothing to the success count and the size of the batch to the failure
  count. When every call that returns reports one result per document of its batch, the
  two counts add up to the number of chunks.
\<close>

theorem upsert_chunks_counts:
  assumes "\<not> (chunks \<noteq> [] \<and> truthy embeddings \<and> length (the embeddings) \<noteq> length chunks)"
    and "docs = map (\<lambda>c. to_search_document c now)
                  (if truthy embeddings then attach_embeddings chunks (the embeddings) else chunks)"
    and "batches = map (\<lambda>k. slice docs (k * BATCH_SIZE) (k * BATCH_SIZE + BATCH_SIZE))
                     [0..<(length docs + BATCH_SIZE - 1) div BATCH_SIZE]"
    and "outcome = (\<lambda>j. upload_documents client
                           (hist @ map UploadDocuments (take j batches)) (batches ! j))"
    and "succeeded = sum_list (map (\<lambda>j. case outcome j of
                                              Inr rs \<Rightarrow> length (filter (\<lambda>r. r) rs)
                                            | Inl e \<Rightarrow> 0) [0..<length batches])"
    and "failed_count = sum_list (map (\<lambda>j. case outcome j of
                                              Inr rs \<Rightarrow> length rs - length (filter (\<lambda>r. r) rs)
                                            | Inl e \<Rightarrow> length (batches ! j)) [0..<length batches])"
  shows "upsert_chunks client chunks embeddings now hist =
           (Inr (succeeded, failed_count), hist @ map UploadDocuments batches)
       \<and> concat batches = docs \<and> length docs = length chunks
       \<and> ((\<forall>j<length batches. \<forall>rs. outcome j = Inr rs \<longrightarrow> length rs = length (batches ! j))
            \<longrightarrow> succeeded + failed_count = length chunks)"
proof -
  let ?m = "(length docs + BATCH_SIZE - 1) div BATCH_SIZE"
  let ?starts = "map (\<lambda>k. k * BATCH_SIZE) [0..<?m]"
  have pos: "0 < int BATCH_SIZE" by (simp add: BATCH_SIZE_def)
  have st: "range_step (length docs) (int BATCH_SIZE) = Inr ?starts"
    using pos by (simp add: range_step_def)
  have bat: "batches = map (\<lambda>i. slice docs i (i + BATCH_SIZE)) ?starts"
    unfolding assms(3) by (simp add: comp_def)
  have len: "length docs = length chunks"
    unfolding assms(2) by (simp add: length_attach_embeddings)
  have cat: "concat batches = docs"
  proof -
    have "concat batches = map (\<lambda>x. x) (take (?m * BATCH_SIZE) docs)"
      unfolding bat using concat_slices [of "\<lambda>x. x" docs BATCH_SIZE ?m] by simp
    moreover have "length docs \<le> ?m * BATCH_SIZE"
      using range_step_covers(2) [OF pos st] by simp
    ultimately show ?thesis by simp
  qed
  have run: "upsert_chunks client chunks embeddings now hist =
           (Inr (succeeded, failed_count), hist @ map UploadDocuments batches)"
  proof (cases "chunks = []")
    case True
    with len have "docs = []" by simp
    then have "batches = []" unfolding assms(3) by (simp add: BATCH_SIZE_def)
    with True show ?thesis unfolding assms(5,6) by (simp add: upsert_chunks_def)
  next
    case False
    have "upsert_batches client docs ?starts 0 0 hist =
        ((succeeded, failed_count), hist @ map UploadDocuments batches)"
      unfolding upsert_batches_exact assms(5,6) assms(4) bat by simp
    with False assms(1) st show ?thesis
      unfolding upsert_chunks_def Let_def assms(2) [symmetric] by simp
  qed
  have total: "succeeded + failed_count = length chunks"
    if a: "\<forall>j<length batches. \<forall>rs. outcome j = Inr rs \<longrightarrow> length rs = length (batches ! j)"
  proof -
    have "succeeded + failed_count = length (concat batches)"
      unfolding assms(5,6)
    proof (rule sum_list_upt_nth)
      fix j assume j: "j < length batches"
      show "(case outcome j of Inr rs \<Rightarrow> length (filter (\<lambda>r. r) rs) | Inl e \<Rightarrow> 0)
          + (case outcome j of Inr rs \<Rightarrow> length rs - length (filter (\<lambda>r. r) rs)
             | Inl e \<Rightarrow> length (batches ! j)) = length (batches ! j)"
      proof (cases "outcome j")
        case (Inl e)
        then show ?thesis by simp
      next
        case (Inr rs)
        with a j have "length rs = length (batches ! j)" by blast
        with Inr length_filter_le [of "\<lambda>r. r" rs] show ?thesis by simp
      qed
    qed
    with cat len show ?thesis by simp
  qed
  from run cat len total show ?thesis by blast
qed

theorem upsert_chunks_counts_witness:
  "upsert_chunks failing_upload_client
       [\<lparr>chunk_id = 0, content = ''First chunk content'', source_path = ''docs/a.pdf'',
          file_name = ''a.pdf'', page_number = None, total_chunks = Some 2,
          embedding = (None :: nat option)\<rparr>,
        \<lparr>chunk_id = 1, content = ''Second chunk content'', source_path = ''docs/a.pdf'',
          file_name = ''a.pdf'', page_number = None, total_chunks = Some 2,
          embedding = None\<rparr>]
       None ''2024-01-01T00:00:00'' []
     = (Inr (0, 2),
        [UploadDocuments
          [\<lparr>doc_id = ''docs_a.pdf#chunk_0'', doc_content = ''First chunk content'',
             doc_sourcePath = ''docs/a.pdf'', doc_fileName = ''a.pdf'',
             doc_chunkId = 0, doc_processedAt = ''2024-01-01T00:00:00Z'',
             doc_contentVector = None, doc_pageNumber = None,
             doc_totalChunks = Some 2\<rparr>,
           \<lparr>doc_id = ''docs_a.pdf#chunk_1'', doc_content = ''Second chunk content'',
             doc_sourcePath = ''docs/a.pdf'', doc_fileName = ''a.pdf'',
             doc_chunkId = 1, doc_processedAt = ''2024-01-01T00:00:00Z'',
             doc_contentVector = None, doc_pageNumber = None,
             doc_totalChunks = Some 2\<rparr>]])"
proof -
  let ?chunks = "[\<lparr>chunk_id = 0, content = ''First chunk content'', source_path = ''docs/a.pdf'',
          file_name = ''a.pdf'', page_number = None, total_chunks = Some 2,
          embedding = (None :: nat option)\<rparr>,
        \<lparr>chunk_id = 1, content = ''Second chunk content'', source_path = ''docs/a.pdf'',
          file_name = ''a.pdf'', page_number = None, total_chunks = Some 2,
          embedding = None\<rparr>]"
  let ?docs = "[\<lparr>doc_id = ''docs_a.pdf#chunk_0'', doc_content = ''First chunk content'',
             doc_sourcePath = ''docs/a.pdf'', doc_fileName = ''a.pdf'',
             doc_chunkId = 0, doc_processedAt = ''2024-01-01T00:00:00Z'',
             doc_contentVector = (None :: nat option), doc_pageNumber = None,
             doc_totalChunks = Some 2\<rparr>,
           \<lparr>doc_id = ''docs_a.pdf#chunk_1'', doc_content = ''Second chunk content'',
             doc_sourcePath = ''docs/a.pdf'', doc_fileName = ''a.pdf'',
             doc_chunkId = 1, doc_processedAt = ''2024-01-01T00:00:00Z'',
             doc_contentVector = None, doc_pageNumber = None,
             doc_totalChunks = Some 2\<rparr>]"
  have h: "\<not> (?chunks \<noteq> [] \<and> truthy None \<and> length (the None) \<noteq> length ?chunks)"
    by (simp add: truthy_def)
  have d: "?docs = map (\<lambda>c. to_search_document c ''2024-01-01T00:00:00'')
                  (if truthy None then attach_embeddings ?chunks (the None) else ?chunks)"
    by code_simp
  have b: "[?docs] = map (\<lambda>k. slice ?docs (k * BATCH_SIZE) (k * BATCH_SIZE + BATCH_SIZE))
                     [0..<(length ?docs + BATCH_SIZE - 1) div BATCH_SIZE]"
    by code_simp
  have s: "(0::nat) = sum_list (map (\<lambda>j. case upload_documents failing_upload_client
                           ([] @ map UploadDocuments (take j [?docs])) ([?docs] ! j) of
                                              Inr rs \<Rightarrow> length (filter (\<lambda>r. r) rs)
                                            | Inl e \<Rightarrow> 0) [0..<length [?docs]])"
    by (simp add: failing_upload_client_def)
  have f: "(2::nat) = sum_list (map (\<lambda>j. case upload_documents failing_upload_client
                           ([] @ map UploadDocuments (take j [?docs])) ([?docs] ! j) of
                                              Inr rs \<Rightarrow> length rs - length (filter (\<lambda>r. r) rs)
                                            | Inl e \<Rightarrow> length ([?docs] ! j)) [0..<length [?docs]])"
    by (simp add: failing_upload_client_def)
  from upsert_chunks_counts [OF h d b refl s f] show ?thesis by simp
qed

text \<open>
  The same two chunks on a store that accepts the first document and rejects the second:
  one success and one failure.
\<close>

lemma upsert_chunks_partial_failure:
  "fst (upsert_chunks partial_failure_client
       [\<lparr>chunk_id = 0, content = ''First chunk content'', source_path = ''docs/a.pdf'',
          file_name = ''a.pdf'', page_number = None, total_chunks = Some 2,
          embedding = (None :: nat option)\<rparr>,
        \<lparr>chunk_id = 1, content = ''Second chunk content'', source_path = ''docs/a.pdf'',
          file_name = ''a.pdf'', page_number = None, total_chunks = Some 2,
          embedding = None\<rparr>]
       None ''2024-01-01T00:00:00'' []) = Inr (1, 1)"
  by code_simp

end
